theory Spec2Isabelle
  imports Main
begin

section \<open>Data model\<close>

text \<open>
  The module records of \<open>moduleDetailsJSON['modules']\<close>: a JSON object with the five keys
  written by \<open>initializeModuleDetails\<close>. Python integers are unbounded, hence \<open>int\<close>.
\<close>

record module =
  name :: string
  version :: string
  level :: int
  release :: bool
  dependents :: "string list"

text \<open>
  The exceptions the modelled code can raise: \<open>max\<close> of an empty sequence (ValueError), a
  missing node or node attribute (KeyError), and the graph library's own errors.
\<close>

datatype error = ValueError | KeyError | NodeNotFound | NetworkXError

text \<open>
  The directed graph of the graph library (\<open>nx.DiGraph\<close>), as far as the program uses it:
  the nodes in insertion order, for every node its successors in insertion order (the
  library keeps both in dictionaries, which iterate in insertion order), and the
  \<open>level\<close> attribute of a node, absent for a node that was only added as an endpoint of an
  edge.
\<close>

record digraph =
  nodes :: "string list"
  succ :: "string \<Rightarrow> string list"
  attr :: "string \<Rightarrow> int option"

text \<open>The two mutable objects the level computation works on.\<close>

record state =
  graph :: digraph
  modules :: "module list"

section \<open>Graph library operations\<close>

definition DiGraph :: digraph where
  "DiGraph = \<lparr>nodes = [], succ = (\<lambda>_. []), attr = (\<lambda>_. None)\<rparr>"

text \<open>\<open>G.add_node(n, level=l)\<close>: a new node is appended, the attribute is (re)set.\<close>

definition add_node :: "string \<Rightarrow> int \<Rightarrow> digraph \<Rightarrow> digraph" where
  "add_node n l g =
     g\<lparr>nodes := (if n \<in> set (nodes g) then nodes g else nodes g @ [n]),
       attr := (attr g)(n \<mapsto> l)\<rparr>"

text \<open>An endpoint of a new edge that is not yet a node becomes one, without attributes.\<close>

definition implicit_node :: "string \<Rightarrow> digraph \<Rightarrow> digraph" where
  "implicit_node n g = (if n \<in> set (nodes g) then g else g\<lparr>nodes := nodes g @ [n]\<rparr>)"

definition add_edge :: "string \<Rightarrow> string \<Rightarrow> digraph \<Rightarrow> digraph" where
  "add_edge u v g =
     (let g1 = implicit_node u g; g2 = implicit_node v g1
      in g2\<lparr>succ := (succ g2)(u := (if v \<in> set (succ g2 u) then succ g2 u else succ g2 u @ [v]))\<rparr>)"

definition successors_of :: "digraph \<Rightarrow> string \<Rightarrow> error + string list" where
  "successors_of g n = (if n \<in> set (nodes g) then Inr (succ g n) else Inl NetworkXError)"

definition in_degree :: "digraph \<Rightarrow> string \<Rightarrow> nat" where
  "in_degree g n = length (filter (\<lambda>u. n \<in> set (succ g u)) (nodes g))"

definition out_degree :: "digraph \<Rightarrow> string \<Rightarrow> nat" where
  "out_degree g n = length (succ g n)"

text \<open>\<open>G.nodes[n]['level'] = l\<close> and \<open>G.nodes[n]['level']\<close>.\<close>

definition set_level :: "string \<Rightarrow> int \<Rightarrow> digraph \<Rightarrow> error + digraph" where
  "set_level n l g = (if n \<in> set (nodes g) then Inr (g\<lparr>attr := (attr g)(n \<mapsto> l)\<rparr>) else Inl KeyError)"

definition get_level :: "digraph \<Rightarrow> string \<Rightarrow> error + int" where
  "get_level g n =
     (if n \<in> set (nodes g) then (case attr g n of None \<Rightarrow> Inl KeyError | Some l \<Rightarrow> Inr l)
      else Inl KeyError)"

text \<open>
  \<open>nx.all_simple_paths(G, source, target)\<close> for a single target: a depth-first search
  over the successor lists that keeps the nodes of the current path in \<open>visited\<close>, yields
  \<open>visited + [target]\<close> whenever the target is met and does not search beyond it, and
  stops extending a path that has \<open>cutoff\<close> nodes. The paths come out in the order the
  generator yields them.
\<close>

function all_simple_paths_graph ::
  "(string \<Rightarrow> string list) \<Rightarrow> string \<Rightarrow> nat \<Rightarrow> string list \<Rightarrow> string list \<Rightarrow> string list list" where
  "all_simple_paths_graph adj target cutoff visited [] = []"
| "all_simple_paths_graph adj target cutoff visited (child # children) =
     (if length visited < cutoff then
        (if child \<in> set visited then all_simple_paths_graph adj target cutoff visited children
         else if child = target then
           (visited @ [child]) # all_simple_paths_graph adj target cutoff visited children
         else all_simple_paths_graph adj target cutoff (visited @ [child]) (adj child)
              @ all_simple_paths_graph adj target cutoff visited children)
      else (if target \<in> set (child # children) \<and> target \<notin> set visited
            then [visited @ [target]] else []))"
  by pat_completeness auto
termination
  by (relation "measures [\<lambda>p. fst (snd (snd p)) - length (fst (snd (snd (snd p)))),
                          \<lambda>p. length (snd (snd (snd (snd p))))]") auto

text \<open>
  The entry point: both endpoints must be nodes; a source that is its own target has no
  simple path; the cutoff is \<open>len(G) - 1\<close>. (For a target that is no node the library
  first tries to read it as a collection of targets; \<open>calculateLevels\<close> only passes nodes
  of the graph, and the model raises for every other target.)
\<close>

definition all_simple_paths :: "digraph \<Rightarrow> string \<Rightarrow> string \<Rightarrow> error + string list list" where
  "all_simple_paths g source target =
     (if source \<notin> set (nodes g) then Inl NodeNotFound
      else if target \<notin> set (nodes g) then Inl NodeNotFound
      else if source = target then Inr []
      else if length (nodes g) - 1 < 1 then Inr []
      else Inr (all_simple_paths_graph (succ g) target (length (nodes g) - 1) [source] (succ g source)))"

text \<open>\<open>max(paths, key=lambda x: len(x))\<close>: the first of the longest; no path raises.\<close>

definition max_len :: "string list list \<Rightarrow> error + string list" where
  "max_len ps =
     (case ps of [] \<Rightarrow> Inl ValueError
      | p # qs \<Rightarrow> Inr (fold (\<lambda>q best. if length best < length q then q else best) qs p))"

section \<open>The program\<close>

text \<open>
  The innermost loop of \<open>removeModulesInIntermediatePaths\<close>: the first record named
  \<open>source\<close> loses the first occurrence of \<open>destination\<close> in its dependents, if there is one.
\<close>

fun remove_dependent :: "string \<Rightarrow> string \<Rightarrow> module list \<Rightarrow> module list" where
  "remove_dependent source destination [] = []"
| "remove_dependent source destination (m # ms) =
     (if name m = source then
        (if destination \<in> set (dependents m)
         then m\<lparr>dependents := remove1 destination (dependents m)\<rparr> else m) # ms
      else m # remove_dependent source destination ms)"

text \<open>The loop over \<open>longestPath[1:-1]\<close>.\<close>

fun remove_for_intermediates ::
  "string \<Rightarrow> string \<Rightarrow> string list \<Rightarrow> string list \<Rightarrow> module list \<Rightarrow> module list" where
  "remove_for_intermediates source destination successors [] ms = ms"
| "remove_for_intermediates source destination successors (n # ns) ms =
     remove_for_intermediates source destination successors ns
       (if n \<in> set successors then remove_dependent source destination ms else ms)"

definition removeModulesInIntermediatePaths ::
  "state \<Rightarrow> string \<Rightarrow> string \<Rightarrow> string list \<Rightarrow> error + state" where
  "removeModulesInIntermediatePaths st source destination successors =
     (case all_simple_paths (graph st) source destination of
        Inl e \<Rightarrow> Inl e
      | Inr ps \<Rightarrow>
          (case max_len ps of
             Inl e \<Rightarrow> Inl e
           | Inr longestPath \<Rightarrow>
               Inr (st\<lparr>modules :=
                     remove_for_intermediates source destination successors
                       (butlast (tl longestPath)) (modules st)\<rparr>)))"

text \<open>The loop over the successors of one node of the processing list.\<close>

fun visit_successors ::
  "string \<Rightarrow> string list \<Rightarrow> int \<Rightarrow> string list \<Rightarrow> state \<times> string list
     \<Rightarrow> error + state \<times> string list" where
  "visit_successors node successors lvl [] (st, temp) = Inr (st, temp)"
| "visit_successors node successors lvl (successor # rest) (st, temp) =
     (case removeModulesInIntermediatePaths st node successor successors of
        Inl e \<Rightarrow> Inl e
      | Inr st1 \<Rightarrow>
          (case set_level successor lvl (graph st1) of
             Inl e \<Rightarrow> Inl e
           | Inr g \<Rightarrow>
               visit_successors node successors lvl rest
                 (st1\<lparr>graph := g\<rparr>, if successor \<in> set temp then temp else temp @ [successor])))"

text \<open>The loop over the processing list: one wave.\<close>

fun process_wave ::
  "int \<Rightarrow> string list \<Rightarrow> state \<times> string list \<Rightarrow> error + state \<times> string list" where
  "process_wave lvl [] (st, temp) = Inr (st, temp)"
| "process_wave lvl (node # rest) (st, temp) =
     (case successors_of (graph st) node of
        Inl e \<Rightarrow> Inl e
      | Inr ss \<Rightarrow>
          (case visit_successors node ss lvl ss (st, temp) of
             Inl e \<Rightarrow> Inl e
           | Inr (st1, temp1) \<Rightarrow> process_wave lvl rest (st1, temp1)))"

text \<open>
  The \<open>while\<close> loop. It need not terminate (a cycle below a root keeps the processing
  list non-empty for ever), so it is a partial function: \<open>None\<close> is a run that never
  returns.
\<close>

partial_function (option) propagate :: "int \<Rightarrow> string list \<Rightarrow> state \<Rightarrow> (error + state) option" where
  "propagate lvl processingList st =
     (if processingList = [] then Some (Inr st)
      else (case process_wave lvl processingList (st, []) of
              Inl e \<Rightarrow> Some (Inl e)
            | Inr (st1, temp) \<Rightarrow> propagate (lvl + 1) temp st1))"

declare propagate.simps [code]

text \<open>The final loop: every record gets the level of the node of its name.\<close>

fun write_levels :: "digraph \<Rightarrow> module list \<Rightarrow> error + module list" where
  "write_levels g [] = Inr []"
| "write_levels g (m # ms) =
     (case get_level g (name m) of
        Inl e \<Rightarrow> Inl e
      | Inr l \<Rightarrow> (case write_levels g ms of Inl e \<Rightarrow> Inl e | Inr ms' \<Rightarrow> Inr (m\<lparr>level := l\<rparr> # ms')))"

text \<open>The graph that \<open>calculateLevels\<close> builds before the traversal.\<close>

definition build_graph :: "string list \<Rightarrow> module list \<Rightarrow> digraph" where
  "build_graph moduleNameList ms =
     fold (\<lambda>m g. fold (\<lambda>dependent g'. add_edge (name m) dependent g') (dependents m) g) ms
       (fold (\<lambda>n g. add_node n 1 g) moduleNameList DiGraph)"

definition roots :: "digraph \<Rightarrow> string list" where
  "roots g = filter (\<lambda>node. in_degree g node = 0 \<and> out_degree g node \<noteq> 0) (nodes g)"

definition calculateLevels :: "string list \<Rightarrow> module list \<Rightarrow> (error + module list) option" where
  "calculateLevels moduleNameList ms =
     (let g = build_graph moduleNameList ms in
      case propagate 2 (roots g) \<lparr>graph = g, modules = ms\<rparr> of
        None \<Rightarrow> None
      | Some (Inl e) \<Rightarrow> Some (Inl e)
      | Some (Inr st) \<Rightarrow> Some (write_levels (graph st) (modules st)))"

text \<open>
  \<open>initializeModuleDetails\<close>; the version of a module is fetched over the network by
  \<open>getVersion\<close>, which is a parameter here.
\<close>

definition initializeModuleDetails :: "(string \<Rightarrow> string) \<Rightarrow> string list \<Rightarrow> module list" where
  "initializeModuleDetails getVersion moduleNameList =
     map (\<lambda>moduleName. \<lparr>name = moduleName, version = getVersion moduleName, level = 0,
                        release = True, dependents = []\<rparr>) moduleNameList"

section \<open>Notions of the specification\<close>

text \<open>The edge relation of a graph: \<open>(u, v)\<close> is an edge when \<open>v\<close> is a successor of \<open>u\<close>.\<close>

definition edges :: "digraph \<Rightarrow> (string \<times> string) set" where
  "edges g = {(u, v). v \<in> set (succ g u)}"

text \<open>The edges that the dependents lists of the module records describe.\<close>

definition dep_edges :: "module list \<Rightarrow> (string \<times> string) set" where
  "dep_edges ms = (\<Union>m\<in>set ms. {name m} \<times> set (dependents m))"

text \<open>A directed path, as the list of its nodes; it has \<open>length p - 1\<close> hops.\<close>

fun is_path :: "digraph \<Rightarrow> string list \<Rightarrow> bool" where
  "is_path g [] = False"
| "is_path g [v] = True"
| "is_path g (u # v # p) = (v \<in> set (succ g u) \<and> is_path g (v # p))"

text \<open>A root: a node without incoming edges.\<close>

definition is_root :: "digraph \<Rightarrow> string \<Rightarrow> bool" where
  "is_root g r = (r \<in> set (nodes g) \<and> in_degree g r = 0)"

text \<open>The nodes that some root reaches in exactly \<open>k\<close> hops.\<close>

fun depth_set :: "digraph \<Rightarrow> nat \<Rightarrow> string set" where
  "depth_set g 0 = {r. is_root g r}"
| "depth_set g (Suc k) = edges g `` depth_set g k"

text \<open>The nodes that a node of the initial processing list reaches in exactly \<open>k\<close> hops.\<close>

fun wave :: "digraph \<Rightarrow> nat \<Rightarrow> string set" where
  "wave g 0 = set (roots g)"
| "wave g (Suc k) = edges g `` wave g k"

text \<open>Every endpoint of an edge is a node.\<close>

definition closed_graph :: "digraph \<Rightarrow> bool" where
  "closed_graph g = (edges g \<subseteq> set (nodes g) \<times> set (nodes g))"

text \<open>What one run may change in a module record: its dependents may lose entries.\<close>

definition shrunk :: "module \<Rightarrow> module \<Rightarrow> bool" where
  "shrunk m m' =
     (name m' = name m \<and> version m' = version m \<and> release m' = release m \<and> level m' = level m
      \<and> set (dependents m') \<subseteq> set (dependents m))"

text \<open>A path of at least two hops from \<open>s\<close> to \<open>d\<close>.\<close>

definition detour :: "digraph \<Rightarrow> string \<Rightarrow> string \<Rightarrow> bool" where
  "detour g s d = (\<exists>p. is_path g p \<and> 3 \<le> length p \<and> hd p = s \<and> last p = d)"

text \<open>Every entry that a record lost is the end of a detour from the record's name.\<close>

definition pruned :: "digraph \<Rightarrow> module \<Rightarrow> module \<Rightarrow> bool" where
  "pruned g m m' =
     (shrunk m m' \<and> (\<forall>d\<in>set (dependents m) - set (dependents m'). detour g (name m) d))"

section \<open>Lemmas\<close>

subsection \<open>Building the graph\<close>

lemma nodes_add_node: "set (nodes (add_node n l g)) = insert n (set (nodes g))"
  by (auto simp: add_node_def)

lemma succ_add_node: "succ (add_node n l g) = succ g"
  by (simp add: add_node_def)

lemma attr_add_node: "attr (add_node n l g) = (attr g)(n \<mapsto> l)"
  by (simp add: add_node_def)

lemma nodes_implicit_node: "set (nodes (implicit_node n g)) = insert n (set (nodes g))"
  by (auto simp: implicit_node_def)

lemma succ_implicit_node: "succ (implicit_node n g) = succ g"
  by (simp add: implicit_node_def)

lemma attr_implicit_node: "attr (implicit_node n g) = attr g"
  by (simp add: implicit_node_def)

lemma nodes_add_edge: "set (nodes (add_edge u v g)) = insert u (insert v (set (nodes g)))"
  by (auto simp: add_edge_def Let_def nodes_implicit_node)

lemma attr_add_edge: "attr (add_edge u v g) = attr g"
  by (simp add: add_edge_def Let_def attr_implicit_node)

lemma edges_add_edge: "edges (add_edge u v g) = insert (u, v) (edges g)"
  by (auto simp: edges_def add_edge_def Let_def succ_implicit_node split: if_splits)

lemma edges_add_node: "edges (add_node n l g) = edges g"
  by (simp add: edges_def succ_add_node)

lemma fold_add_node:
  "set (nodes (fold (\<lambda>n g. add_node n l g) ns g)) = set (nodes g) \<union> set ns
   \<and> edges (fold (\<lambda>n g. add_node n l g) ns g) = edges g
   \<and> attr (fold (\<lambda>n g. add_node n l g) ns g) = (\<lambda>x. if x \<in> set ns then Some l else attr g x)"
  by (induction ns arbitrary: g)
     (auto simp: nodes_add_node edges_add_node attr_add_node fun_eq_iff)

lemma fold_add_edge:
  "set (nodes (fold (\<lambda>d g. add_edge u d g) ds g)) = set (nodes g) \<union> Field ({u} \<times> set ds)
   \<and> edges (fold (\<lambda>d g. add_edge u d g) ds g) = edges g \<union> {u} \<times> set ds
   \<and> attr (fold (\<lambda>d g. add_edge u d g) ds g) = attr g"
  by (induction ds arbitrary: g)
     (auto simp: nodes_add_edge edges_add_edge attr_add_edge Field_def)

lemma fold_modules:
  "set (nodes (fold (\<lambda>m g. fold (\<lambda>d g'. add_edge (name m) d g') (dependents m) g) ms g))
     = set (nodes g) \<union> Field (dep_edges ms)
   \<and> edges (fold (\<lambda>m g. fold (\<lambda>d g'. add_edge (name m) d g') (dependents m) g) ms g)
     = edges g \<union> dep_edges ms
   \<and> attr (fold (\<lambda>m g. fold (\<lambda>d g'. add_edge (name m) d g') (dependents m) g) ms g) = attr g"
proof (induction ms arbitrary: g)
  case Nil
  show ?case by (simp add: dep_edges_def)
next
  case (Cons m ms)
  have d: "dep_edges (m # ms) = {name m} \<times> set (dependents m) \<union> dep_edges ms"
    by (simp add: dep_edges_def)
  show ?case
    unfolding d by (simp add: Cons.IH fold_add_edge Field_Un Un_assoc)
qed

lemma edges_DiGraph: "edges DiGraph = {}"
  by (simp add: edges_def DiGraph_def)

lemma edges_build_graph: "edges (build_graph ns ms) = dep_edges ms"
  by (simp add: build_graph_def fold_modules fold_add_node edges_DiGraph)

lemma nodes_build_graph: "set (nodes (build_graph ns ms)) = set ns \<union> Field (dep_edges ms)"
  by (simp add: build_graph_def fold_modules fold_add_node DiGraph_def)

lemma attr_build_graph: "attr (build_graph ns ms) x = (if x \<in> set ns then Some 1 else None)"
  by (simp add: build_graph_def fold_modules fold_add_node DiGraph_def)

lemma closed_build_graph: "closed_graph (build_graph ns ms)"
  by (auto simp: closed_graph_def edges_build_graph nodes_build_graph Field_def)

subsection \<open>Paths\<close>

lemma is_path_append:
  "is_path g (p @ [u]) \<Longrightarrow> is_path g (u # q) \<Longrightarrow> is_path g (p @ u # q)"
  by (induction g p rule: is_path.induct) auto

lemma is_path_suffix: "is_path g (p @ q) \<Longrightarrow> q \<noteq> [] \<Longrightarrow> is_path g q"
proof (induction p)
  case Nil
  then show ?case by simp
next
  case (Cons a p)
  then show ?case by (cases "p @ q") auto
qed

lemma is_path_prefix: "is_path g (p @ q) \<Longrightarrow> p \<noteq> [] \<Longrightarrow> is_path g p"
proof (induction g p rule: is_path.induct)
  case (3 g u v p)
  then show ?case by auto
qed auto

lemma is_path_snoc:
  "is_path g p \<Longrightarrow> v \<in> set (succ g (last p)) \<Longrightarrow> is_path g (p @ [v])"
  by (induction g p rule: is_path.induct) auto

lemma is_path_edge: "is_path g (p @ [u, v]) \<Longrightarrow> v \<in> set (succ g u)"
  using is_path_suffix [of g p "[u, v]"] by simp

subsection \<open>The simple paths of the graph library\<close>

lemma all_simple_paths_graph_sound:
  "p \<in> set (all_simple_paths_graph (succ g) t c vis ch) \<Longrightarrow> vis \<noteq> [] \<Longrightarrow>
   set ch \<subseteq> set (succ g (last vis)) \<Longrightarrow> distinct vis \<Longrightarrow> t \<notin> set vis \<Longrightarrow>
   \<exists>q. p = vis @ q @ [t] \<and> distinct p \<and> is_path g (last vis # q @ [t])"
proof (induction "succ g" t c vis ch rule: all_simple_paths_graph.induct)
  case (1 target cutoff visited)
  then show ?case by simp
next
  case (2 target cutoff visited child children)
  show ?case
  proof (cases "length visited < cutoff")
    case False
    with "2.prems" have "p = visited @ [target]" and "target \<in> set (succ g (last visited))"
      by (auto split: if_splits)
    with "2.prems" show ?thesis by auto
  next
    case below: True
    show ?thesis
    proof (cases "child \<in> set visited")
      case True
      with below "2.prems" "2.hyps"(1) show ?thesis by simp
    next
      case fresh: False
      show ?thesis
      proof (cases "child = target")
        case True
        with below fresh "2.prems" have
          "p = visited @ [target] \<or> p \<in> set (all_simple_paths_graph (succ g) target cutoff visited children)"
          by auto
        then show ?thesis
        proof
          assume "p = visited @ [target]"
          with True "2.prems" show ?thesis by auto
        next
          assume "p \<in> set (all_simple_paths_graph (succ g) target cutoff visited children)"
          with below fresh True "2.prems" "2.hyps"(2) show ?thesis by simp
        qed
      next
        case False
        with below fresh "2.prems" have
          "p \<in> set (all_simple_paths_graph (succ g) target cutoff (visited @ [child]) (succ g child))
           \<or> p \<in> set (all_simple_paths_graph (succ g) target cutoff visited children)"
          by auto
        then show ?thesis
        proof
          assume "p \<in> set (all_simple_paths_graph (succ g) target cutoff (visited @ [child]) (succ g child))"
          with "2.hyps"(3) [OF below fresh False] "2.prems" fresh False
          obtain q where q: "p = (visited @ [child]) @ q @ [target]" "distinct p"
            "is_path g (last (visited @ [child]) # q @ [target])"
            by auto
          from "2.prems" have "child \<in> set (succ g (last visited))" by simp
          with q have "p = visited @ (child # q) @ [target] \<and> distinct p
                       \<and> is_path g (last visited # (child # q) @ [target])"
            by simp
          then show ?thesis by blast
        next
          assume "p \<in> set (all_simple_paths_graph (succ g) target cutoff visited children)"
          with below fresh False "2.prems" "2.hyps"(4) show ?thesis by simp
        qed
      qed
    qed
  qed
qed

lemma all_simple_paths_graph_direct:
  "t \<in> set ch \<Longrightarrow> t \<notin> set vis \<Longrightarrow> vis @ [t] \<in> set (all_simple_paths_graph adj t c vis ch)"
  by (induction ch) auto

lemma all_simple_paths_sound:
  assumes "all_simple_paths g s t = Inr ps" and "p \<in> set ps"
  shows "\<exists>q. p = s # q @ [t] \<and> distinct p \<and> is_path g p"
proof -
  from assms have st: "s \<noteq> t"
    and p: "p \<in> set (all_simple_paths_graph (succ g) t (length (nodes g) - 1) [s] (succ g s))"
    by (auto simp: all_simple_paths_def split: if_splits)
  from all_simple_paths_graph_sound [OF p] st show ?thesis by auto
qed

lemma all_simple_paths_nonempty:
  assumes "s \<in> set (nodes g)" and "t \<in> set (nodes g)" and "t \<in> set (succ g s)" and "s \<noteq> t"
  shows "\<exists>p ps. all_simple_paths g s t = Inr (p # ps)"
proof -
  from assms have "{s, t} \<subseteq> set (nodes g)" by simp
  then have "card {s, t} \<le> card (set (nodes g))" by (intro card_mono) auto
  also have "\<dots> \<le> length (nodes g)" by (rule card_length)
  finally have len: "2 \<le> length (nodes g)" using assms(4) by simp
  have "[s] @ [t] \<in> set (all_simple_paths_graph (succ g) t (length (nodes g) - 1) [s] (succ g s))"
    using assms by (intro all_simple_paths_graph_direct) auto
  then obtain p ps where
    "all_simple_paths_graph (succ g) t (length (nodes g) - 1) [s] (succ g s) = p # ps"
    by (cases "all_simple_paths_graph (succ g) t (length (nodes g) - 1) [s] (succ g s)") auto
  with assms len show ?thesis by (simp add: all_simple_paths_def)
qed

lemma fold_longest_in: "fold (\<lambda>q best. if length best < length q then q else best) qs p \<in> set (p # qs)"
  by (induction qs arbitrary: p) auto

lemma max_len_in: "max_len ps = Inr p \<Longrightarrow> p \<in> set ps"
  using fold_longest_in by (auto simp: max_len_def split: list.splits)

lemma max_len_Cons: "\<exists>q. max_len (p # ps) = Inr q"
  by (simp add: max_len_def)

subsection \<open>The pruner\<close>

lemma shrunk_refl: "shrunk m m"
  by (simp add: shrunk_def)

lemma shrunk_trans: "shrunk a b \<Longrightarrow> shrunk b c \<Longrightarrow> shrunk a c"
  by (auto simp: shrunk_def)

lemma pruned_refl: "pruned g m m"
  by (simp add: pruned_def shrunk_refl)

lemma pruned_trans: "pruned g a b \<Longrightarrow> pruned g b c \<Longrightarrow> pruned g a c"
  unfolding pruned_def using shrunk_trans [of a b c] by (auto simp: shrunk_def)

lemma list_all2_pruned_refl: "list_all2 (pruned g) ms ms"
  by (simp add: list_all2_refl pruned_refl)

lemma list_all2_pruned_trans:
  "list_all2 (pruned g) as bs \<Longrightarrow> list_all2 (pruned g) bs cs \<Longrightarrow> list_all2 (pruned g) as cs"
  by (rule list_all2_trans [of "pruned g" "pruned g" "pruned g"]) (auto intro: pruned_trans)

lemma remove_dependent_pruned:
  "detour g s d \<Longrightarrow> list_all2 (pruned g) ms (remove_dependent s d ms)"
proof (induction ms)
  case Nil
  then show ?case by simp
next
  case (Cons m ms)
  have "pruned g m (m\<lparr>dependents := remove1 d (dependents m)\<rparr>)" if "name m = s"
  proof -
    have "set (remove1 d (dependents m)) \<subseteq> set (dependents m)"
      by (rule set_remove1_subset)
    moreover have "x = d" if "x \<in> set (dependents m)" "x \<notin> set (remove1 d (dependents m))" for x
      using that by (cases "x = d") simp_all
    ultimately show ?thesis
      using that Cons.prems by (auto simp: pruned_def shrunk_def)
  qed
  with Cons show ?case by (simp add: list_all2_pruned_refl pruned_refl)
qed

lemma remove_for_intermediates_none:
  "set ns \<inter> set ss = {} \<Longrightarrow> remove_for_intermediates s d ss ns ms = ms"
  by (induction ns arbitrary: ms) auto

lemma remove_for_intermediates_pruned:
  "detour g s d \<Longrightarrow> list_all2 (pruned g) ms (remove_for_intermediates s d ss ns ms)"
proof (induction ns arbitrary: ms)
  case Nil
  then show ?case by (simp add: list_all2_pruned_refl)
next
  case (Cons n ns)
  then show ?case
    by (auto intro: list_all2_pruned_trans remove_dependent_pruned)
qed

text \<open>What one call of the pruner does: the graph stays, and the module list changes only
  when an inner node of the chosen path is one of the given successors.\<close>

lemma removeModulesInIntermediatePaths_cases:
  assumes "removeModulesInIntermediatePaths st s d ss = Inr st'"
  shows "graph st' = graph st \<and>
         (modules st' = modules st \<or>
          (\<exists>i q r. i \<in> set ss \<and> i \<noteq> s \<and> i \<noteq> d \<and> is_path (graph st) (s # q @ i # r @ [d])))"
proof -
  from assms obtain ps p where ps: "all_simple_paths (graph st) s d = Inr ps"
    and p: "max_len ps = Inr p"
    and st': "st' = st\<lparr>modules := remove_for_intermediates s d ss (butlast (tl p)) (modules st)\<rparr>"
    by (auto simp: removeModulesInIntermediatePaths_def split: sum.splits)
  from all_simple_paths_sound [OF ps max_len_in [OF p]]
  obtain q where q: "p = s # q @ [d]" "distinct p" "is_path (graph st) p" by blast
  then have inner: "butlast (tl p) = q" by simp
  show ?thesis
  proof (cases "set q \<inter> set ss = {}")
    case True
    with st' inner show ?thesis by (simp add: remove_for_intermediates_none)
  next
    case False
    then obtain i where i: "i \<in> set q" "i \<in> set ss" by auto
    then obtain q1 q2 where "q = q1 @ i # q2" by (auto simp: in_set_conv_decomp)
    with q i have "i \<noteq> s \<and> i \<noteq> d \<and> is_path (graph st) (s # q1 @ i # q2 @ [d])" by auto
    with i st' show ?thesis by auto
  qed
qed

lemma removeModulesInIntermediatePaths_pruned:
  assumes "removeModulesInIntermediatePaths st s d ss = Inr st'"
  shows "list_all2 (pruned (graph st)) (modules st) (modules st')"
proof -
  from removeModulesInIntermediatePaths_cases [OF assms]
  consider "modules st' = modules st"
    | i q r where "is_path (graph st) (s # q @ i # r @ [d])" by blast
  then show ?thesis
  proof cases
    case 1
    then show ?thesis by (simp add: list_all2_pruned_refl)
  next
    case 2
    then have "detour (graph st) s d"
      unfolding detour_def by (intro exI [of _ "s # q @ i # r @ [d]"]) simp
    moreover from assms obtain ns where
      "modules st' = remove_for_intermediates s d ss ns (modules st)"
      by (auto simp: removeModulesInIntermediatePaths_def split: sum.splits)
    ultimately show ?thesis by (simp add: remove_for_intermediates_pruned)
  qed
qed

lemma removeModulesInIntermediatePaths_total:
  assumes "s \<in> set (nodes (graph st))" and "d \<in> set (nodes (graph st))"
    and "d \<in> set (succ (graph st) s)" and "s \<noteq> d"
  shows "\<exists>st'. removeModulesInIntermediatePaths st s d ss = Inr st'"
proof -
  from all_simple_paths_nonempty [OF assms] obtain p ps
    where "all_simple_paths (graph st) s d = Inr (p # ps)" by blast
  moreover obtain q where "max_len (p # ps) = Inr q" using max_len_Cons by blast
  ultimately show ?thesis by (simp add: removeModulesInIntermediatePaths_def)
qed

subsection \<open>One wave\<close>

lemma is_path_cong: "succ g' = succ g \<Longrightarrow> is_path g' p = is_path g p"
  by (induction g p rule: is_path.induct) auto

lemma pruned_cong:
  assumes "succ g' = succ g"
  shows "pruned g' = pruned g"
proof -
  have "is_path g' p = is_path g p" for p
    using assms by (rule is_path_cong)
  then have "detour g' s d = detour g s d" for s d
    by (simp add: detour_def)
  then show ?thesis
    by (simp add: pruned_def fun_eq_iff)
qed

lemma set_level_result:
  "set_level n l g = Inr g' \<Longrightarrow>
   nodes g' = nodes g \<and> succ g' = succ g \<and> attr g' = (attr g)(n \<mapsto> l)"
  by (auto simp: set_level_def split: if_splits)

lemma visit_successors_result:
  "visit_successors node ss lvl rest (st, temp) = Inr (st', temp') \<Longrightarrow>
   nodes (graph st') = nodes (graph st) \<and> succ (graph st') = succ (graph st)
   \<and> attr (graph st') = (\<lambda>v. if v \<in> set rest then Some lvl else attr (graph st) v)
   \<and> set temp' = set temp \<union> set rest
   \<and> list_all2 (pruned (graph st)) (modules st) (modules st')"
proof (induction rest arbitrary: st temp)
  case Nil
  then show ?case by (simp add: list_all2_pruned_refl)
next
  case (Cons s rest)
  from Cons.prems obtain st1 g where
    st1: "removeModulesInIntermediatePaths st node s ss = Inr st1"
    and g: "set_level s lvl (graph st1) = Inr g"
    and rest: "visit_successors node ss lvl rest
                 (st1\<lparr>graph := g\<rparr>, if s \<in> set temp then temp else temp @ [s]) = Inr (st', temp')"
    by (auto split: sum.splits)
  from removeModulesInIntermediatePaths_cases [OF st1] have same: "graph st1 = graph st" by simp
  note pr = removeModulesInIntermediatePaths_pruned [OF st1]
  from set_level_result [OF g] same have
    g': "nodes g = nodes (graph st)" "succ g = succ (graph st)" "attr g = (attr (graph st))(s \<mapsto> lvl)"
    by simp_all
  from Cons.IH [OF rest] g' have
    a: "nodes (graph st') = nodes (graph st)" and b: "succ (graph st') = succ (graph st)"
    and c: "attr (graph st') = (\<lambda>v. if v \<in> set rest then Some lvl else ((attr (graph st))(s \<mapsto> lvl)) v)"
    and d: "set temp' = set (if s \<in> set temp then temp else temp @ [s]) \<union> set rest"
    and e: "list_all2 (pruned g) (modules st1) (modules st')"
    by (simp_all cong: if_cong)
  from e g' have "list_all2 (pruned (graph st)) (modules st1) (modules st')"
    by (simp add: pruned_cong [of g "graph st"])
  with pr have "list_all2 (pruned (graph st)) (modules st) (modules st')"
    by (rule list_all2_pruned_trans)
  moreover from c have
    "attr (graph st') = (\<lambda>v. if v \<in> set (s # rest) then Some lvl else attr (graph st) v)"
    by (auto simp: fun_eq_iff)
  moreover from d have "set temp' = set temp \<union> set (s # rest)" by auto
  ultimately show ?case using a b by simp
qed

lemma visit_successors_total:
  "set rest \<subseteq> set (succ (graph st) node) \<Longrightarrow> node \<in> set (nodes (graph st)) \<Longrightarrow>
   node \<notin> set (succ (graph st) node) \<Longrightarrow> set (succ (graph st) node) \<subseteq> set (nodes (graph st)) \<Longrightarrow>
   \<exists>r. visit_successors node ss lvl rest (st, temp) = Inr r"
proof (induction rest arbitrary: st temp)
  case Nil
  then show ?case by simp
next
  case (Cons s rest)
  from Cons.prems have s: "s \<in> set (succ (graph st) node)" "s \<in> set (nodes (graph st))" "node \<noteq> s"
    by auto
  from removeModulesInIntermediatePaths_total [OF Cons.prems(2) s(2) s(1) s(3)]
  obtain st1 where st1: "removeModulesInIntermediatePaths st node s ss = Inr st1" by blast
  from removeModulesInIntermediatePaths_cases [OF st1] have same: "graph st1 = graph st" by simp
  with s have g: "set_level s lvl (graph st1) = Inr (graph st\<lparr>attr := (attr (graph st))(s \<mapsto> lvl)\<rparr>)"
    by (simp add: set_level_def)
  have "\<exists>r. visit_successors node ss lvl rest
          (st1\<lparr>graph := graph st\<lparr>attr := (attr (graph st))(s \<mapsto> lvl)\<rparr>\<rparr>,
           if s \<in> set temp then temp else temp @ [s]) = Inr r"
    using Cons.prems by (intro Cons.IH) auto
  with st1 g show ?case by simp
qed

lemma process_wave_result:
  "process_wave lvl F (st, temp) = Inr (st', temp') \<Longrightarrow>
   nodes (graph st') = nodes (graph st) \<and> succ (graph st') = succ (graph st)
   \<and> attr (graph st') =
       (\<lambda>v. if \<exists>u\<in>set F. v \<in> set (succ (graph st) u) then Some lvl else attr (graph st) v)
   \<and> set temp' = set temp \<union> (\<Union>u\<in>set F. set (succ (graph st) u))
   \<and> list_all2 (pruned (graph st)) (modules st) (modules st')
   \<and> set F \<subseteq> set (nodes (graph st))"
proof (induction F arbitrary: st temp)
  case Nil
  then show ?case by (simp add: list_all2_pruned_refl)
next
  case (Cons node F)
  from Cons.prems obtain st1 temp1 where
    node: "node \<in> set (nodes (graph st))"
    and v: "visit_successors node (succ (graph st) node) lvl (succ (graph st) node) (st, temp)
              = Inr (st1, temp1)"
    and rest: "process_wave lvl F (st1, temp1) = Inr (st', temp')"
    by (auto simp: successors_of_def split: sum.splits if_splits)
  from visit_successors_result [OF v] have
    a1: "nodes (graph st1) = nodes (graph st)" and b1: "succ (graph st1) = succ (graph st)"
    and c1: "attr (graph st1) = (\<lambda>v. if v \<in> set (succ (graph st) node) then Some lvl else attr (graph st) v)"
    and d1: "set temp1 = set temp \<union> set (succ (graph st) node)"
    and e1: "list_all2 (pruned (graph st)) (modules st) (modules st1)"
    by simp_all
  from Cons.IH [OF rest] a1 b1 have
    a: "nodes (graph st') = nodes (graph st)" and b: "succ (graph st') = succ (graph st)"
    and c: "attr (graph st') =
       (\<lambda>v. if \<exists>u\<in>set F. v \<in> set (succ (graph st) u) then Some lvl else attr (graph st1) v)"
    and d: "set temp' = set temp1 \<union> (\<Union>u\<in>set F. set (succ (graph st) u))"
    and e: "list_all2 (pruned (graph st1)) (modules st1) (modules st')"
    and f: "set F \<subseteq> set (nodes (graph st))"
    by (simp_all cong: if_cong)
  from e b1 have "list_all2 (pruned (graph st)) (modules st1) (modules st')"
    by (simp add: pruned_cong [of "graph st1" "graph st"])
  with e1 have "list_all2 (pruned (graph st)) (modules st) (modules st')"
    by (rule list_all2_pruned_trans)
  moreover from c c1 have "attr (graph st') =
       (\<lambda>v. if \<exists>u\<in>set (node # F). v \<in> set (succ (graph st) u) then Some lvl else attr (graph st) v)"
    by (auto simp: fun_eq_iff)
  moreover from d d1 have "set temp' = set temp \<union> (\<Union>u\<in>set (node # F). set (succ (graph st) u))"
    by auto
  ultimately show ?case using a b f node by simp
qed

lemma process_wave_total:
  "set F \<subseteq> set (nodes (graph st)) \<Longrightarrow> closed_graph (graph st) \<Longrightarrow>
   \<forall>u. u \<notin> set (succ (graph st) u) \<Longrightarrow> \<exists>r. process_wave lvl F (st, temp) = Inr r"
proof (induction F arbitrary: st temp)
  case Nil
  then show ?case by simp
next
  case (Cons node F)
  from Cons.prems have node: "node \<in> set (nodes (graph st))"
    and sub: "set (succ (graph st) node) \<subseteq> set (nodes (graph st))"
    by (auto simp: closed_graph_def edges_def)
  from Cons.prems(3) have "node \<notin> set (succ (graph st) node)" by simp
  from visit_successors_total [OF subset_refl node this sub]
  obtain st1 temp1 where
    v: "visit_successors node (succ (graph st) node) lvl (succ (graph st) node) (st, temp)
          = Inr (st1, temp1)"
    by fastforce
  from visit_successors_result [OF v] have
    same: "nodes (graph st1) = nodes (graph st)" "succ (graph st1) = succ (graph st)" by simp_all
  with Cons.prems have "\<exists>r. process_wave lvl F (st1, temp1) = Inr r"
    by (intro Cons.IH) (auto simp: closed_graph_def edges_def)
  with v node show ?case by (simp add: successors_of_def)
qed

section \<open>The properties of the specification\<close>

text \<open>
  C4. On the modules A, B, C, where the dependents of A are B and C and the dependents of
  B are C, the run returns level 1 for A, level 2 for B and level 3 for C, and C is gone
  from the dependents of A (B stays). Versions, release flags and the levels of the input
  records are arbitrary.
\<close>

theorem example_levels:
  "calculateLevels [''A'', ''B'', ''C'']
     [\<lparr>name = ''A'', version = vA, level = lA, release = rA, dependents = [''B'', ''C'']\<rparr>,
      \<lparr>name = ''B'', version = vB, level = lB, release = rB, dependents = [''C'']\<rparr>,
      \<lparr>name = ''C'', version = vC, level = lC, release = rC, dependents = []\<rparr>]
   = Some (Inr
     [\<lparr>name = ''A'', version = vA, level = 1, release = rA, dependents = [''B'']\<rparr>,
      \<lparr>name = ''B'', version = vB, level = 2, release = rB, dependents = [''C'']\<rparr>,
      \<lparr>name = ''C'', version = vC, level = 3, release = rC, dependents = []\<rparr>])"
  by code_simp

end
